theory Spec2Isabelle
  imports Main "HOL-Library.Product_Lexorder" "HOL-Library.List_Lexorder"
    "HOL-Library.Char_ord" "HOL-Library.Sublist"
begin

section \<open>The sorted-set store behind the time-series engine\<close>

text \<open>
  \<open>RedisSampleTimeSeries\<close> (src/ttseries/ts/sample.py) keeps every series in one Redis
  sorted set. The Redis client is an external library; the commands the engine calls are
  modelled here with the semantics Redis documents for them.

  A sorted set is a list of (score, member) pairs in Redis order: ascending by score, and
  by the bytes of the member among equal scores. Members are byte strings (\<open>char\<close> is a
  byte), scores are the timestamps. The engine only compares timestamps, so they are
  integers here. A key whose sorted set is empty does not exist in Redis, hence the
  database maps a key to a list and \<open>[]\<close> stands for an absent key.
\<close>

type_synonym bytes = string
type_synonym zset = "(int \<times> bytes) list"

datatype bound = NegInf | Fin int | PosInf

datatype cmd =
    ZADD string
  | ZREMRANGEBYRANK string
  | ZREMRANGEBYSCORE string
  | DEL string
  | ZCOUNT string
  | ZCARD string
  | ZRANGEBYSCORE string
  | ZREVRANGEBYSCORE string
  | ZRANK string
  | ZSCAN string
  | WATCH string

record redis =
  db :: "string \<Rightarrow> zset"
  log :: "cmd list"

fun is_write :: "cmd \<Rightarrow> bool" where
  "is_write (ZADD k) = True"
| "is_write (ZREMRANGEBYRANK k) = True"
| "is_write (ZREMRANGEBYSCORE k) = True"
| "is_write (DEL k) = True"
| "is_write c = False"

definition writes :: "redis \<Rightarrow> cmd list" where
  "writes s = filter is_write (log s)"

definition issue :: "cmd \<Rightarrow> redis \<Rightarrow> redis" where
  "issue c s = s\<lparr>log := log s @ [c]\<rparr>"

definition zset_ok :: "zset \<Rightarrow> bool" where
  "zset_ok z = (sorted z \<and> distinct (map snd z))"

fun above :: "bound \<Rightarrow> int \<Rightarrow> bool" where
  "above NegInf x = True"
| "above (Fin a) x = (a \<le> x)"
| "above PosInf x = False"

fun below :: "bound \<Rightarrow> int \<Rightarrow> bool" where
  "below NegInf x = False"
| "below (Fin b) x = (x \<le> b)"
| "below PosInf x = True"

definition in_range :: "bound \<Rightarrow> bound \<Rightarrow> int \<times> bytes \<Rightarrow> bool" where
  "in_range lo hi e = (above lo (fst e) \<and> below hi (fst e))"

subsection \<open>Commands on one sorted set\<close>

definition zset_add :: "int \<Rightarrow> bytes \<Rightarrow> zset \<Rightarrow> zset" where
  \<comment> \<open>ZADD of one pair: a member already stored is moved to the new score\<close>
  "zset_add sc m z = insort (sc, m) (filter (\<lambda>e. snd e \<noteq> m) z)"

fun zset_add_all :: "(int \<times> bytes) list \<Rightarrow> zset \<Rightarrow> zset" where
  "zset_add_all [] z = z"
| "zset_add_all ((sc, m) # ps) z = zset_add_all ps (zset_add sc m z)"

definition zset_remrangebyrank :: "int \<Rightarrow> int \<Rightarrow> zset \<Rightarrow> zset" where
  \<comment> \<open>ranks are zero-based, negative ranks count from the end, the range is clamped\<close>
  "zset_remrangebyrank mn mx z =
     (let n = int (length z);
          lo = (if mn < 0 then max 0 (mn + n) else mn);
          hi = (if mx < 0 then mx + n else mx);
          hi' = min hi (n - 1)
      in if lo > hi' \<or> lo \<ge> n then z
         else take (nat lo) z @ drop (nat hi' + 1) z)"

definition zset_remrangebyscore :: "bound \<Rightarrow> bound \<Rightarrow> zset \<Rightarrow> zset" where
  "zset_remrangebyscore lo hi z = filter (\<lambda>e. \<not> in_range lo hi e) z"

definition zset_limit :: "(nat \<times> int) option \<Rightarrow> 'a list \<Rightarrow> 'a list" where
  \<comment> \<open>LIMIT offset count; a negative count returns everything from the offset\<close>
  "zset_limit lim xs =
     (case lim of None \<Rightarrow> xs
      | Some (start, num) \<Rightarrow>
          (if num < 0 then drop start xs else take (nat num) (drop start xs)))"

fun zset_rank :: "bytes \<Rightarrow> zset \<Rightarrow> nat option" where
  "zset_rank m [] = None"
| "zset_rank m (e # z) =
     (if snd e = m then Some 0 else map_option Suc (zset_rank m z))"

subsection \<open>The client commands\<close>

text \<open>
  Every command is logged in the order issued, and returns its reply with the new state.
  Replies that carry scores are lists of (member, score), as the Python client gives them.
\<close>

definition zadd :: "string \<Rightarrow> (int \<times> bytes) list \<Rightarrow> redis \<Rightarrow> nat \<times> redis" where
  \<comment> \<open>the reply counts the members that were new\<close>
  "zadd name ps s =
     (let z = db s name; z' = zset_add_all ps z
      in (length z' - length z, issue (ZADD name) (s\<lparr>db := (db s)(name := z')\<rparr>)))"

definition zremrangebyrank :: "string \<Rightarrow> int \<Rightarrow> int \<Rightarrow> redis \<Rightarrow> nat \<times> redis" where
  "zremrangebyrank name mn mx s =
     (let z = db s name; z' = zset_remrangebyrank mn mx z
      in (length z - length z',
          issue (ZREMRANGEBYRANK name) (s\<lparr>db := (db s)(name := z')\<rparr>)))"

definition zremrangebyscore :: "string \<Rightarrow> bound \<Rightarrow> bound \<Rightarrow> redis \<Rightarrow> nat \<times> redis" where
  "zremrangebyscore name lo hi s =
     (let z = db s name; z' = zset_remrangebyscore lo hi z
      in (length z - length z',
          issue (ZREMRANGEBYSCORE name) (s\<lparr>db := (db s)(name := z')\<rparr>)))"

definition client_delete :: "string list \<Rightarrow> redis \<Rightarrow> nat \<times> redis" where
  \<comment> \<open>DEL key ...: the reply is the number of keys that existed\<close>
  "client_delete names s =
     (length (filter (\<lambda>k. db s k \<noteq> []) (remdups names)),
      fold (\<lambda>k. issue (DEL k)) names
        (s\<lparr>db := (\<lambda>k. if k \<in> set names then [] else db s k)\<rparr>))"

definition zcount :: "string \<Rightarrow> bound \<Rightarrow> bound \<Rightarrow> redis \<Rightarrow> nat \<times> redis" where
  "zcount name lo hi s =
     (length (filter (in_range lo hi) (db s name)), issue (ZCOUNT name) s)"

definition zcard :: "string \<Rightarrow> redis \<Rightarrow> nat \<times> redis" where
  "zcard name s = (length (db s name), issue (ZCARD name) s)"

definition zrangebyscore ::
  "string \<Rightarrow> bound \<Rightarrow> bound \<Rightarrow> (nat \<times> int) option \<Rightarrow> redis \<Rightarrow> (bytes \<times> int) list \<times> redis" where
  "zrangebyscore name lo hi lim s =
     (map (\<lambda>e. (snd e, fst e)) (zset_limit lim (filter (in_range lo hi) (db s name))),
      issue (ZRANGEBYSCORE name) s)"

definition zrevrangebyscore ::
  "string \<Rightarrow> bound \<Rightarrow> bound \<Rightarrow> (nat \<times> int) option \<Rightarrow> redis \<Rightarrow> (bytes \<times> int) list \<times> redis" where
  "zrevrangebyscore name lo hi lim s =
     (map (\<lambda>e. (snd e, fst e)) (zset_limit lim (rev (filter (in_range lo hi) (db s name)))),
      issue (ZREVRANGEBYSCORE name) s)"

definition zrank :: "string \<Rightarrow> bytes \<Rightarrow> redis \<Rightarrow> nat option \<times> redis" where
  "zrank name m s = (zset_rank m (db s name), issue (ZRANK name) s)"

definition zscan_iter :: "string \<Rightarrow> redis \<Rightarrow> (bytes \<times> int) list \<times> redis" where
  "zscan_iter name s = (map (\<lambda>e. (snd e, fst e)) (db s name), issue (ZSCAN name) s)"

section \<open>The engine\<close>

text \<open>
  The engine object: its configuration and the codec. The codec is an external
  collaborator and stays a parameter; \<open>loads\<close> answers \<open>None\<close> where decoding raises.
  \<open>dumps_item\<close> is the same Python \<open>dumps\<close> applied to a (timestamp, payload) tuple.
\<close>

datatype py_error =
  TypeError | IndexError | UnboundLocalError | ZeroDivisionError | CodecError | ValidationError

record 'v engine =
  max_length :: int
  use_numpy :: bool
  dumps :: "'v \<Rightarrow> bytes"
  loads :: "bytes \<Rightarrow> 'v option"
  dumps_item :: "int \<times> 'v \<Rightarrow> bytes"
  add_many_validate :: "string \<Rightarrow> (int \<times> 'v) list \<Rightarrow> py_error + (int \<times> 'v) list"

text \<open>
  Modelled from the spec: \<open>_add_many_validate\<close> of the base class, which is not in the
  sources, is the field \<open>add_many_validate\<close> above. The spec has it validate and
  normalise the whole batch before any remote call, so it is a function of the batch
  alone that either raises or returns the pairs to insert.
\<close>

subsection \<open>Helpers of the base class\<close>

text \<open>
  Modelled from the spec: \<open>exist_timestamp\<close> of the base class, which is not in the
  sources. The spec has \<open>add\<close> test whether an element with the given timestamp as
  score already exists in the series; the reply is the number of such elements, which
  Python reads as false exactly when it is zero.
\<close>

definition exist_timestamp :: "string \<Rightarrow> int \<Rightarrow> redis \<Rightarrow> nat \<times> redis" where
  "exist_timestamp name timestamp s = zcount name (Fin timestamp) (Fin timestamp) s"

text \<open>
  Modelled from the spec: \<open>length\<close> of the base class, which is not in the sources:
  the current number of elements of the series.
\<close>

definition length_ts :: "string \<Rightarrow> redis \<Rightarrow> nat \<times> redis" where
  "length_ts name s = zcard name s"

text \<open>
  Modelled from the spec: \<open>count\<close> of the base class, which is not in the sources:
  the number of elements whose score lies in the inclusive range.
\<close>

definition count :: "string \<Rightarrow> bound \<Rightarrow> bound \<Rightarrow> redis \<Rightarrow> nat \<times> redis" where
  "count name lo hi s = zcount name lo hi s"

text \<open>
  Modelled from the spec: \<open>validate_key\<close> of the base class, which is not in the
  sources. A name is valid when it is not empty and does not collide with the suffixes
  the hash-backed variant reserves for its own keys (\<open>:ID\<close> and \<open>:HASH\<close> in
  src/tests/test_hash_timeseries.py).
\<close>

definition validate_key :: "string \<Rightarrow> bool" where
  "validate_key name =
     (name \<noteq> [] \<and> \<not> suffix '':ID'' name \<and> \<not> suffix '':HASH'' name)"

text \<open>
  Modelled from the spec: \<open>chunks\<close> of \<open>ttseries.utils\<close>, which is not in the
  sources: consecutive pieces of \<open>n\<close> items in order, the last one possibly shorter
  (src/tests/test_utils.py). No piece is produced for a size of zero.
\<close>

fun chunks_fuel :: "nat \<Rightarrow> nat \<Rightarrow> 'a list \<Rightarrow> 'a list list" where
  "chunks_fuel 0 n xs = []"
| "chunks_fuel (Suc k) n xs =
     (if n = 0 \<or> xs = [] then [] else take n xs # chunks_fuel k n (drop n xs))"

definition chunks :: "'a list \<Rightarrow> nat \<Rightarrow> 'a list list" where
  \<comment> \<open>every piece takes at least one item, so \<open>length xs\<close> rounds are enough\<close>
  "chunks xs n = chunks_fuel (length xs) n xs"

text \<open>
  Modelled from the spec: \<open>transaction_pipe\<close> of the base class, which is not in the
  sources: the key is watched, the queued commands are committed together. With no
  concurrent writer the transaction commits.
\<close>

definition transaction_pipe :: "(redis \<Rightarrow> redis) \<Rightarrow> string \<Rightarrow> redis \<Rightarrow> redis" where
  "transaction_pipe pipe_func watch_keys s = pipe_func (issue (WATCH watch_keys) s)"

subsection \<open>Python values\<close>

definition truthy :: "int option \<Rightarrow> bool" where
  \<comment> \<open>the truth value of an optional number: \<open>None\<close> and zero are false\<close>
  "truthy t = (case t of None \<Rightarrow> False | Some x \<Rightarrow> x \<noteq> 0)"

definition or_else :: "int option \<Rightarrow> bound \<Rightarrow> bound" where
  \<comment> \<open>\<open>if t is None: t = default\<close>\<close>
  "or_else t d = (case t of None \<Rightarrow> d | Some x \<Rightarrow> Fin x)"

subsection \<open>add, add_many, get\<close>

definition add :: "'v engine \<Rightarrow> string \<Rightarrow> int \<Rightarrow> 'v \<Rightarrow> redis \<Rightarrow> nat option \<times> redis" where
  "add e name timestamp data s =
     (let d = dumps e data;
          (ex, s1) = exist_timestamp name timestamp s
      in if ex = 0 then
           (let (len, s2) = length_ts name s1;
                s3 = (if int len = max_length e
                      then snd (zremrangebyrank name 0 0 s2) else s2);
                (r, s4) = zadd name [(timestamp, d)] s3
            in (Some r, s4))
         else (None, s1))"

definition enc :: "'v engine \<Rightarrow> int \<times> 'v \<Rightarrow> int \<times> bytes" where
  \<comment> \<open>a (timestamp, payload) pair as the (score, member) pair it is stored as\<close>
  "enc e p = (fst p, dumps e (snd p))"

definition add_chunk :: "'v engine \<Rightarrow> string \<Rightarrow> (int \<times> 'v) list \<Rightarrow> redis \<Rightarrow> redis" where
  \<comment> \<open>the body of the loop of \<open>add_many\<close>: one ZADD of the whole chunk in a transaction\<close>
  "add_chunk e name item s =
     (let filter_data = map (\<lambda>(timestamp, data). (timestamp, dumps e data)) item
      in transaction_pipe (\<lambda>p. snd (zadd name filter_data p)) name s)"

definition add_many ::
  "'v engine \<Rightarrow> string \<Rightarrow> (int \<times> 'v) list \<Rightarrow> nat \<Rightarrow> redis \<Rightarrow> py_error option \<times> redis" where
  "add_many e name timestamp_pairs chunks_size s =
     (if \<not> validate_key name then (Some ValidationError, s)
      else case add_many_validate e name timestamp_pairs of
             Inl err \<Rightarrow> (Some err, s)
           | Inr pairs \<Rightarrow> (None, fold (add_chunk e name) (chunks pairs chunks_size) s))"

definition get :: "'v engine \<Rightarrow> string \<Rightarrow> int \<Rightarrow> redis \<Rightarrow> (py_error + 'v option) \<times> redis" where
  "get e name timestamp s =
     (let (result, s1) = zrangebyscore name (Fin timestamp) (Fin timestamp) None s
      in (case result of
            [] \<Rightarrow> Inr None
          | r # _ \<Rightarrow>
              (if use_numpy e then Inr None
               else case loads e (fst r) of
                      None \<Rightarrow> Inl CodecError
                    | Some v \<Rightarrow> Inr (Some v)),
          s1))"

subsection \<open>delete, trim\<close>

text \<open>
  The lock of the base class plays no part in a run by one caller and is not modelled;
  \<open>trim\<close> calls \<open>delete\<close> while it holds the lock, so the lock is taken to be
  re-entrant.
\<close>

definition delete :: "string \<Rightarrow> int option \<Rightarrow> int option \<Rightarrow> redis \<Rightarrow> nat \<times> redis" where
  "delete name start_timestamp end_timestamp s =
     (if truthy start_timestamp \<or> truthy end_timestamp
      then zremrangebyscore name (or_else start_timestamp NegInf)
             (or_else end_timestamp PosInf) s
      else client_delete [name] s)"

definition trim :: "string \<Rightarrow> int \<Rightarrow> redis \<Rightarrow> redis" where
  \<comment> \<open>\<open>len\<close> is the source's \<open>length\<close> after \<open>int(length)\<close>\<close>
  "trim name len s =
     (let (current_length, s1) = length_ts name s
      in if int current_length > len \<and> len > 0
         then snd (zremrangebyrank name 0 (len - 1) s1)
         else if len \<ge> int current_length then snd (delete name None None s1)
         else s1)"

subsection \<open>get_slice, iter\<close>

text \<open>
  \<open>get_slice\<close> and \<open>iter\<close> are generators. A run of a generator is the list of the
  values it yields, and how it ends: \<open>None\<close> when it returns, \<open>Some err\<close> when it
  raises. The consumer decides the value of each \<open>yield\<close> expression: \<open>None\<close> when it
  asks for the next page with \<open>next\<close> (what a \<open>for\<close> loop and \<open>list\<close> do), or the
  list it passes to \<open>send\<close>.
\<close>

type_synonym 'v page = "(int \<times> 'v) list"
type_synonym 'v consumer = "'v page \<Rightarrow> 'v page option"

definition by_next :: "'v consumer" where
  \<comment> \<open>the consumer iterates: every resumption is a \<open>next\<close>\<close>
  "by_next page = None"

definition by_send :: "'v consumer" where
  \<comment> \<open>the consumer hands each page back: every resumption is a \<open>send(page)\<close>\<close>
  "by_send page = Some page"

datatype index_var = Unbound | Bound "nat option"

definition decode_page :: "'v engine \<Rightarrow> (bytes \<times> int) list \<Rightarrow> 'v page option" where
  "decode_page e results =
     those (map (\<lambda>(data, timestamp). map_option (Pair timestamp) (loads e data)) results)"

definition zrange_func ::
  "bool \<Rightarrow> string \<Rightarrow> bound \<Rightarrow> bound \<Rightarrow> (nat \<times> int) option \<Rightarrow> redis \<Rightarrow> (bytes \<times> int) list \<times> redis" where
  "zrange_func asc = (if asc then zrangebyscore else zrevrangebyscore)"

definition start_of :: "nat \<Rightarrow> index_var \<Rightarrow> py_error + nat" where
  \<comment> \<open>\<open>start = 0 if i == 0 else index + 1\<close>\<close>
  "start_of i index =
     (if i = 0 then Inr 0
      else case index of
             Unbound \<Rightarrow> Inl UnboundLocalError
           | Bound None \<Rightarrow> Inl TypeError
           | Bound (Some r) \<Rightarrow> Inr (r + 1))"

fun slice_loop ::
  "'v engine \<Rightarrow> 'v consumer \<Rightarrow> bool \<Rightarrow> string \<Rightarrow> bound \<Rightarrow> bound \<Rightarrow> int \<Rightarrow> nat list \<Rightarrow>
   index_var \<Rightarrow> redis \<Rightarrow> ('v page list \<times> py_error option) \<times> redis" where
  "slice_loop e consumer asc name lo hi chunks_size [] index s = (([], None), s)"
| "slice_loop e consumer asc name lo hi chunks_size (i # rest) index s =
     (case start_of i index of
        Inl err \<Rightarrow> (([], Some err), s)
      | Inr start \<Rightarrow>
          (let (results, s1) = zrange_func asc name lo hi (Some (start, chunks_size)) s
           in if use_numpy e
              then slice_loop e consumer asc name lo hi chunks_size rest index s1
              else case decode_page e results of
                     None \<Rightarrow> (([], Some CodecError), s1)
                   | Some page \<Rightarrow>
                       (case consumer page of
                          None \<Rightarrow> (([page], Some TypeError), s1)
                        | Some [] \<Rightarrow> (([page], Some IndexError), s1)
                        | Some yield_data \<Rightarrow>
                            (let index_data = dumps_item e (last yield_data);
                                 (index', s2) = zrank name index_data s1;
                                 ((pages, outcome), s3) =
                                   slice_loop e consumer asc name lo hi chunks_size rest
                                     (Bound index') s2
                             in ((page # pages, outcome), s3)))))"

definition get_slice ::
  "'v engine \<Rightarrow> 'v consumer \<Rightarrow> string \<Rightarrow> int option \<Rightarrow> int option \<Rightarrow> int option \<Rightarrow> bool \<Rightarrow> int \<Rightarrow>
   redis \<Rightarrow> ('v page list \<times> py_error option) \<times> redis" where
  \<comment> \<open>\<open>limit\<close> only occurs in a test whose branch is \<open>pass\<close>;
      \<open>int(total / chunks_size)\<close> rounds towards zero\<close>
  "get_slice e consumer name start_timestamp end_timestamp limit asc chunks_size s =
     (let lo = or_else start_timestamp NegInf;
          hi = or_else end_timestamp PosInf;
          (total, s1) = count name lo hi s
      in if int total > chunks_size then
           (if chunks_size = 0 then (([], Some ZeroDivisionError), s1)
            else
              (let split_size =
                     (if chunks_size > 0 then int total div chunks_size
                      else - (int total div (- chunks_size)))
               in slice_loop e consumer asc name lo hi chunks_size
                    [0 ..< nat split_size] Unbound s1))
         else
           (let (results, s2) = zrange_func asc name lo hi (Some (0, - 1)) s1
            in if use_numpy e then (([], None), s2)
               else case decode_page e results of
                      None \<Rightarrow> (([], Some CodecError), s2)
                    | Some page \<Rightarrow> (([page], None), s2)))"

fun iter_loop :: "'v engine \<Rightarrow> (bytes \<times> int) list \<Rightarrow> 'v page \<times> py_error option" where
  \<comment> \<open>the loop over the scanned items, with its inner test of \<open>self.use_numpy\<close>\<close>
  "iter_loop e [] = ([], None)"
| "iter_loop e (item # items) =
     (if use_numpy e then iter_loop e items
      else case loads e (fst item) of
             None \<Rightarrow> ([], Some CodecError)
           | Some v \<Rightarrow>
               (let (rest, outcome) = iter_loop e items
                in ((snd item, v) # rest, outcome)))"

definition iter ::
  "'v engine \<Rightarrow> string \<Rightarrow> nat option \<Rightarrow> redis \<Rightarrow> ('v page \<times> py_error option) \<times> redis" where
  \<comment> \<open>the scan only runs under \<open>if self.use_numpy\<close>\<close>
  "iter e name cnt s =
     (if use_numpy e then
        (let (items, s1) = zscan_iter name s in (iter_loop e items, s1))
      else (([], None), s))"

subsection \<open>Callers and fixtures\<close>

definition add_each :: "'v engine \<Rightarrow> string \<Rightarrow> (int \<times> 'v) list \<Rightarrow> redis \<Rightarrow> redis" where
  \<comment> \<open>a caller's loop: \<open>for timestamp, data in ps: series.add(name, timestamp, data)\<close>\<close>
  "add_each e name ps s = fold (\<lambda>p s'. snd (add e name (fst p) (snd p) s')) ps s"

definition text_engine :: "int \<Rightarrow> bool \<Rightarrow> string engine" where
  \<comment> \<open>an engine over text payloads whose codec stores the text as it is\<close>
  "text_engine n numpy =
     \<lparr>max_length = n, use_numpy = numpy, dumps = (\<lambda>v. v), loads = Some,
      dumps_item = (\<lambda>p. CHR ''('' # snd p @ '')''),
      add_many_validate = (\<lambda>name ps. Inr ps)\<rparr>"

definition holding :: "string \<Rightarrow> zset \<Rightarrow> redis" where
  \<comment> \<open>a store with one series and an empty command log\<close>
  "holding name z = \<lparr>db = (\<lambda>k. if k = name then z else []), log = []\<rparr>"

section \<open>Facts about the store\<close>

lemmas client_defs = zadd_def zremrangebyrank_def zremrangebyscore_def client_delete_def
  zcount_def zcard_def zrangebyscore_def zrevrangebyscore_def zrank_def zscan_iter_def
  issue_def zset_add_def zset_remrangebyrank_def zset_remrangebyscore_def zset_limit_def
  in_range_def Let_def

lemmas engine_defs = exist_timestamp_def length_ts_def count_def validate_key_def chunks_def
  transaction_pipe_def truthy_def or_else_def add_def add_chunk_def add_many_def get_def
  delete_def trim_def decode_page_def zrange_func_def start_of_def get_slice_def iter_def
  add_each_def text_engine_def holding_def by_next_def by_send_def writes_def enc_def
  suffix_to_prefix

lemma db_issue [simp]: "db (issue c s) = db s"
  by (simp add: issue_def)

lemma log_issue [simp]: "log (issue c s) = log s @ [c]"
  by (simp add: issue_def)

lemma writes_issue [simp]:
  "writes (issue c s) = (if is_write c then writes s @ [c] else writes s)"
  by (simp add: writes_def)

lemma set_zset_add: "set (zset_add sc m z) = insert (sc, m) {e \<in> set z. snd e \<noteq> m}"
  by (auto simp: zset_add_def set_insort_key)

lemma filter_members_id: "m \<notin> snd ` set z \<Longrightarrow> filter (\<lambda>e. snd e \<noteq> m) z = z"
  by (induction z) auto

lemma zset_add_fresh:
  assumes "m \<notin> snd ` set z"
  shows "zset_add sc m z = insort (sc, m) z"
  using assms by (simp add: zset_add_def filter_members_id)

lemma length_zset_add_new:
  "m \<notin> snd ` set z \<Longrightarrow> length (zset_add sc m z) = Suc (length z)"
  by (simp add: zset_add_fresh)

lemma length_filter_member:
  "distinct (map snd z) \<Longrightarrow> m \<in> snd ` set z \<Longrightarrow>
   Suc (length (filter (\<lambda>e. snd e \<noteq> m) z)) = length z"
proof (induction z)
  case Nil
  then show ?case by simp
next
  case (Cons a z)
  show ?case
  proof (cases "snd a = m")
    case True
    then have "m \<notin> snd ` set z" using Cons.prems(1) by auto
    then have "filter (\<lambda>e. snd e \<noteq> m) z = z" by (rule filter_members_id)
    with True show ?thesis by simp
  next
    case False
    then have "m \<in> snd ` set z" using Cons.prems(2) by auto
    with Cons False show ?thesis by simp
  qed
qed

lemma length_zset_add_old:
  "distinct (map snd z) \<Longrightarrow> m \<in> snd ` set z \<Longrightarrow> length (zset_add sc m z) = length z"
  using length_filter_member [of z m] by (simp add: zset_add_def)

lemma length_zset_add_mono:
  "distinct (map snd z) \<Longrightarrow> length z \<le> length (zset_add sc m z)"
  by (cases "m \<in> snd ` set z") (simp_all add: length_zset_add_new length_zset_add_old)

lemma distinct_map_insort:
  "distinct (map f ys) \<Longrightarrow> f x \<notin> f ` set ys \<Longrightarrow> distinct (map f (insort x ys))"
  by (induction ys) (auto simp: set_insort_key)

lemma distinct_zset_add:
  assumes "distinct (map snd z)"
  shows "distinct (map snd (zset_add sc m z))"
proof -
  have "distinct (map snd (filter (\<lambda>e. snd e \<noteq> m) z))"
    using assms by (simp add: distinct_map_filter)
  moreover have "snd (sc, m) \<notin> snd ` set (filter (\<lambda>e. snd e \<noteq> m) z)"
    by auto
  ultimately show ?thesis
    unfolding zset_add_def by (rule distinct_map_insort)
qed

lemma sorted_zset_add: "sorted z \<Longrightarrow> sorted (zset_add sc m z)"
  by (simp add: zset_add_def sorted_insort sorted_wrt_filter)

lemma zset_ok_add: "zset_ok z \<Longrightarrow> zset_ok (zset_add sc m z)"
  by (simp add: zset_ok_def sorted_zset_add distinct_zset_add)

lemma zset_ok_add_all: "zset_ok z \<Longrightarrow> zset_ok (zset_add_all ps z)"
  by (induction ps arbitrary: z) (auto simp: zset_ok_add)

lemma zset_ok_remrangebyscore: "zset_ok z \<Longrightarrow> zset_ok (zset_remrangebyscore lo hi z)"
  by (simp add: zset_ok_def zset_remrangebyscore_def sorted_wrt_filter distinct_map_filter)

lemma zset_ok_remrangebyrank:
  assumes "zset_ok z"
  shows "zset_ok (zset_remrangebyrank mn mx z)"
proof -
  have "zset_ok (take i z @ drop j z)" if "i \<le> j" for i j
  proof -
    have s: "sorted (take i z @ drop i z)"
      and d: "distinct (take i (map snd z) @ drop i (map snd z))"
      using assms by (simp_all add: zset_ok_def)
    have sub: "set (drop j z) \<subseteq> set (drop i z)"
      using that by (rule set_drop_subset_set_drop)
    have "sorted (drop j z)"
      using assms by (simp add: zset_ok_def sorted_wrt_drop)
    moreover have "sorted (take i z)"
      using assms by (simp add: zset_ok_def sorted_wrt_take)
    moreover have "\<forall>x \<in> set (take i z). \<forall>y \<in> set (drop j z). x \<le> y"
      using s sub unfolding sorted_append by blast
    ultimately have "sorted (take i z @ drop j z)"
      by (simp add: sorted_append)
    moreover have "distinct (map snd (take i z @ drop j z))"
    proof -
      have "set (take i (map snd z)) \<inter> set (drop i (map snd z)) = {}"
        using d unfolding distinct_append by blast
      then have "snd ` set (take i z) \<inter> snd ` set (drop i z) = {}"
        by (simp add: take_map drop_map)
      moreover have "snd ` set (drop j z) \<subseteq> snd ` set (drop i z)"
        using sub by blast
      ultimately have "snd ` set (take i z) \<inter> snd ` set (drop j z) = {}"
        by blast
      moreover have "distinct (map snd (take i z))" "distinct (map snd (drop j z))"
        using assms by (simp_all add: zset_ok_def distinct_take distinct_drop
            flip: take_map drop_map)
      ultimately show ?thesis by simp
    qed
    ultimately show ?thesis by (simp add: zset_ok_def)
  qed
  note cut = this
  define n where "n = int (length z)"
  define lo where "lo = (if mn < 0 then max 0 (mn + n) else mn)"
  define hi where "hi = min (if mx < 0 then mx + n else mx) (n - 1)"
  have eq: "zset_remrangebyrank mn mx z =
              (if lo > hi \<or> lo \<ge> n then z else take (nat lo) z @ drop (nat hi + 1) z)"
    unfolding zset_remrangebyrank_def Let_def n_def lo_def hi_def by (rule refl)
  show ?thesis
  proof (cases "lo > hi \<or> lo \<ge> n")
    case True
    then show ?thesis using assms by (simp add: eq)
  next
    case False
    then have "nat lo \<le> nat hi + 1" by linarith
    from cut [OF this] False show ?thesis by (simp add: eq)
  qed
qed

lemma first_rank_removed: "zset_remrangebyrank 0 0 z = tl z"
  by (cases z) (simp_all add: zset_remrangebyrank_def)

lemma remrangebyrank_prefix:
  "0 < len \<Longrightarrow> len < int (length z) \<Longrightarrow> zset_remrangebyrank 0 (len - 1) z = drop (nat len) z"
  by (simp add: zset_remrangebyrank_def Let_def nat_diff_distrib Suc_nat_eq_nat_zadd1)

lemma absent_score:
  "T \<notin> fst ` set z \<Longrightarrow> filter (in_range (Fin T) (Fin T)) z = []"
  by (induction z) (auto simp: in_range_def)

lemma filter_score_single:
  "distinct (map fst z) \<Longrightarrow> (T, m) \<in> set z \<Longrightarrow>
   filter (in_range (Fin T) (Fin T)) z = [(T, m)]"
proof (induction z)
  case Nil
  then show ?case by simp
next
  case (Cons a z)
  show ?case
  proof (cases "a = (T, m)")
    case True
    then have "T \<notin> fst ` set z" using Cons.prems(1) by auto
    then have "filter (in_range (Fin T) (Fin T)) z = []" by (rule absent_score)
    moreover have "in_range (Fin T) (Fin T) a" using True by (simp add: in_range_def)
    ultimately show ?thesis using True by simp
  next
    case False
    then have in_z: "(T, m) \<in> set z" using Cons.prems(2) by auto
    then have "T \<in> fst ` set z" by force
    then have "fst a \<noteq> T" using Cons.prems(1) by auto
    then have "\<not> in_range (Fin T) (Fin T) a" by (simp add: in_range_def)
    then show ?thesis using Cons in_z by simp
  qed
qed

lemma filter_insort_single:
  "filter Q xs = [] \<Longrightarrow> Q x \<Longrightarrow> filter Q (insort x xs) = [x]"
  by (induction xs) (auto split: if_splits)

lemma filter_zset_add_fresh:
  assumes "filter (in_range (Fin T) (Fin T)) z = []"
  shows "filter (in_range (Fin T) (Fin T)) (zset_add T m z) = [(T, m)]"
proof -
  have "filter (in_range (Fin T) (Fin T)) (filter (\<lambda>e. snd e \<noteq> m) z) = []"
    using assms by (simp add: filter_empty_conv)
  moreover have "in_range (Fin T) (Fin T) (T, m)"
    by (simp add: in_range_def)
  ultimately show ?thesis
    unfolding zset_add_def by (rule filter_insort_single)
qed

lemma filter_tl_empty: "filter Q z = [] \<Longrightarrow> filter Q (tl z) = []"
  by (cases z) (auto split: if_splits)

section \<open>Facts about the engine\<close>

lemma db_add:
  "db (snd (add e name T P s)) =
     (if filter (in_range (Fin T) (Fin T)) (db s name) = []
      then (db s)(name := zset_add T (dumps e P)
             (if int (length (db s name)) = max_length e then tl (db s name) else db s name))
      else db s)"
  by (simp add: add_def exist_timestamp_def length_ts_def zcount_def zcard_def zadd_def
      zremrangebyrank_def first_rank_removed Let_def)

lemma add_present:
  "filter (in_range (Fin T) (Fin T)) (db s name) \<noteq> [] \<Longrightarrow>
   add e name T P s = (None, issue (ZCOUNT name) s)"
  by (simp add: add_def exist_timestamp_def zcount_def)

lemma timestamp_present_after_add:
  "filter (in_range (Fin T) (Fin T)) (db (snd (add e name T P s)) name) \<noteq> []"
proof (cases "filter (in_range (Fin T) (Fin T)) (db s name) = []")
  case True
  have "(T, dumps e P) \<in> set (db (snd (add e name T P s)) name)"
    using True by (simp add: db_add set_zset_add)
  moreover have "in_range (Fin T) (Fin T) (T, dumps e P)"
    by (simp add: in_range_def)
  ultimately show ?thesis
    by (metis (no_types, lifting) filter_empty_conv)
next
  case False
  then show ?thesis by (simp add: db_add)
qed

lemma get_reads:
  "fst (get e name T s) =
     (case filter (in_range (Fin T) (Fin T)) (db s name) of
        [] \<Rightarrow> Inr None
      | r # _ \<Rightarrow> (if use_numpy e then Inr None
                  else case loads e (snd r) of None \<Rightarrow> Inl CodecError
                       | Some v \<Rightarrow> Inr (Some v)))"
  by (simp add: get_def zrangebyscore_def zset_limit_def split: list.splits)

lemma db_trim:
  "db (trim name len s) =
     (if len < int (length (db s name)) \<and> 0 < len then (db s)(name := drop (nat len) (db s name))
      else if int (length (db s name)) \<le> len then (db s)(name := [])
      else db s)"
  by (auto simp: trim_def length_ts_def zcard_def zremrangebyrank_def delete_def truthy_def
      client_delete_def remrangebyrank_prefix Let_def)

section \<open>Single inserts\<close>

text \<open>
  C5. A second \<open>add\<close> at a timestamp that \<open>add\<close> was just called with changes nothing,
  whatever the two payloads are: it answers \<open>None\<close>, the contents of the store are those
  left by the first call, and no write command is issued (only the ZCOUNT of the
  existence test is).
\<close>

theorem add_same_timestamp_is_noop:
  "fst (add e name T P2 (snd (add e name T P1 s))) = None \<and>
   db (snd (add e name T P2 (snd (add e name T P1 s)))) = db (snd (add e name T P1 s)) \<and>
   writes (snd (add e name T P2 (snd (add e name T P1 s)))) = writes (snd (add e name T P1 s)) \<and>
   log (snd (add e name T P2 (snd (add e name T P1 s)))) =
     log (snd (add e name T P1 s)) @ [ZCOUNT name]"
  using timestamp_present_after_add [of T e name P1 s]
  by (simp add: add_present)

theorem add_same_timestamp_is_noop_witness:
  "db (snd (add (text_engine 10 False) ''k'' 7 ''y''
        (snd (add (text_engine 10 False) ''k'' 7 ''x'' (holding ''k'' []))))) ''k'' = [(7, ''x'')] \<and>
   writes (snd (add (text_engine 10 False) ''k'' 7 ''y''
        (snd (add (text_engine 10 False) ''k'' 7 ''x'' (holding ''k'' []))))) = [ZADD ''k'']"
proof -
  have first: "db (snd (add (text_engine 10 False) ''k'' 7 ''x'' (holding ''k'' []))) ''k'' = [(7, ''x'')]"
    by (simp add: client_defs engine_defs)
  have wr: "writes (snd (add (text_engine 10 False) ''k'' 7 ''x'' (holding ''k'' []))) = [ZADD ''k'']"
    by (simp add: client_defs engine_defs)
  show ?thesis
    using add_same_timestamp_is_noop
      [of "text_engine 10 False" "''k''" 7 "''y''" "''x''" "holding ''k'' []"]
    by (simp only: first wr)
qed

text \<open>
  C6, as the claim states it, fails on an engine in numpy mode: \<open>get\<close> finds the stored
  element and takes the \<open>pass\<close> branch, so it returns no result right after \<open>add\<close>.
\<close>

theorem get_after_add_numpy_counterexample:
  "fst (exist_timestamp ''k'' 7 (holding ''k'' [])) = 0 \<and>
   db (snd (add (text_engine 10 True) ''k'' 7 ''x'' (holding ''k'' []))) ''k'' = [(7, ''x'')] \<and>
   fst (get (text_engine 10 True) ''k'' 7
          (snd (add (text_engine 10 True) ''k'' 7 ''x'' (holding ''k'' [])))) = Inr None \<and>
   fst (get (text_engine 10 True) ''k'' 7
          (snd (add (text_engine 10 True) ''k'' 7 ''x'' (holding ''k'' [])))) \<noteq> Inr (Some ''x'')"
  by (simp add: client_defs engine_defs)

text \<open>
  C6 (amended). For every series name, payload \<open>P\<close> and timestamp \<open>T\<close> not already present
  in the series, \<open>get(name, T)\<close> right after \<open>add(name, T, P)\<close> returns \<open>P\<close> on an engine
  that is not in numpy mode, the codec decoding \<open>dumps P\<close> back to \<open>P\<close>; on an engine in
  numpy mode it returns no result.
\<close>

theorem get_after_add_round_trip:
  assumes "fst (exist_timestamp name T s) = 0"
  shows "(\<not> use_numpy e \<longrightarrow> loads e (dumps e P) = Some P \<longrightarrow>
            fst (get e name T (snd (add e name T P s))) = Inr (Some P)) \<and>
         (use_numpy e \<longrightarrow> fst (get e name T (snd (add e name T P s))) = Inr None)"
proof -
  have absent: "filter (in_range (Fin T) (Fin T)) (db s name) = []"
    using assms by (simp add: exist_timestamp_def zcount_def)
  define z where "z = (if int (length (db s name)) = max_length e
                       then tl (db s name) else db s name)"
  have "filter (in_range (Fin T) (Fin T)) z = []"
    using absent by (simp add: z_def filter_tl_empty)
  then have "filter (in_range (Fin T) (Fin T)) (zset_add T (dumps e P) z) = [(T, dumps e P)]"
    by (rule filter_zset_add_fresh)
  moreover have "db (snd (add e name T P s)) name = zset_add T (dumps e P) z"
    using absent by (simp add: db_add z_def)
  ultimately show ?thesis
    by (simp add: get_reads)
qed

theorem get_after_add_round_trip_witness:
  "fst (exist_timestamp ''k'' 7 (holding ''k'' [(1, ''a''), (2, ''b'')])) = 0 \<and>
   \<not> use_numpy (text_engine 2 False) \<and>
   loads (text_engine 2 False) (dumps (text_engine 2 False) ''x'') = Some ''x'' \<and>
   fst (get (text_engine 2 False) ''k'' 7
          (snd (add (text_engine 2 False) ''k'' 7 ''x'' (holding ''k'' [(1, ''a''), (2, ''b'')]))))
     = Inr (Some ''x'') \<and>
   use_numpy (text_engine 2 True) \<and>
   fst (get (text_engine 2 True) ''k'' 7
          (snd (add (text_engine 2 True) ''k'' 7 ''x'' (holding ''k'' [(1, ''a''), (2, ''b'')]))))
     = Inr None"
proof -
  have h1: "\<not> use_numpy (text_engine 2 False)" and h1': "use_numpy (text_engine 2 True)"
    by (simp_all add: text_engine_def)
  have h2: "loads (text_engine 2 False) (dumps (text_engine 2 False) ''x'') = Some ''x''"
    by (simp add: text_engine_def)
  have h3: "fst (exist_timestamp ''k'' 7 (holding ''k'' [(1, ''a''), (2, ''b'')])) = 0"
    by (simp add: client_defs engine_defs)
  have plain: "fst (get (text_engine 2 False) ''k'' 7
          (snd (add (text_engine 2 False) ''k'' 7 ''x'' (holding ''k'' [(1, ''a''), (2, ''b'')]))))
     = Inr (Some ''x'')"
    using get_after_add_round_trip [OF h3, of "text_engine 2 False" "''x''"] h1 h2 by blast
  have numpy: "fst (get (text_engine 2 True) ''k'' 7
          (snd (add (text_engine 2 True) ''k'' 7 ''x'' (holding ''k'' [(1, ''a''), (2, ''b'')]))))
     = Inr None"
    using get_after_add_round_trip [OF h3, of "text_engine 2 True" "''x''"] h1' by blast
  from h3 h1 h2 plain h1' numpy show ?thesis by (intro conjI)
qed




subsection \<open>Filling a series up to its capacity and one past it\<close>

lemma add_each_snoc:
  "add_each e name (ps @ [p]) s = snd (add e name (fst p) (snd p) (add_each e name ps s))"
  by (simp add: add_each_def)

lemma add_each_under_capacity:
  assumes "db s name = []"
    and "distinct (map fst qs)"
    and "distinct (map (\<lambda>p. dumps e (snd p)) qs)"
    and "int (length qs) \<le> max_length e"
  shows "sorted (db (add_each e name qs s) name) \<and>
         distinct (map fst (db (add_each e name qs s) name)) \<and>
         set (db (add_each e name qs s) name) = enc e ` set qs \<and>
         length (db (add_each e name qs s) name) = length qs"
  using assms(2-4)
proof (induction qs rule: rev_induct)
  case Nil
  then show ?case by (simp add: add_each_def assms(1))
next
  case (snoc q qs)
  let ?z = "db (add_each e name qs s) name"
  have ih: "sorted ?z" "distinct (map fst ?z)" "set ?z = enc e ` set qs" "length ?z = length qs"
    using snoc by auto
  have t: "fst q \<notin> fst ` set ?z"
    using snoc.prems(1) by (force simp: ih(3) enc_def)
  have m: "dumps e (snd q) \<notin> snd ` set ?z"
    using snoc.prems(2) by (force simp: ih(3) enc_def)
  have room: "int (length ?z) \<noteq> max_length e"
    using snoc.prems(3) by (simp add: ih(4))
  have z': "db (add_each e name (qs @ [q]) s) name = insort (enc e q) ?z"
    using room by (simp add: add_each_snoc db_add absent_score [OF t] zset_add_fresh [OF m] enc_def)
  have "distinct (map fst (insort (enc e q) ?z))"
    using ih(2) t by (intro distinct_map_insort) (simp_all add: enc_def)
  then show ?case
    by (simp add: z' sorted_insort ih set_insort_key)
qed

lemma codec_distinct:
  assumes "distinct (map snd ps)"
    and "\<forall>p \<in> set ps. loads e (dumps e (snd p)) = Some (snd p)"
  shows "distinct (map (\<lambda>p. dumps e (snd p)) ps)"
proof -
  have "inj_on (dumps e) (set (map snd ps))"
  proof (rule inj_onI)
    fix a b
    assume a: "a \<in> set (map snd ps)" and b: "b \<in> set (map snd ps)"
      and eq: "dumps e a = dumps e b"
    from a obtain p where p: "p \<in> set ps" "a = snd p" by auto
    from b obtain r where r: "r \<in> set ps" "b = snd r" by auto
    have "loads e (dumps e a) = Some a"
      using assms(2) p by blast
    moreover have "loads e (dumps e b) = Some b"
      using assms(2) r by blast
    ultimately show "a = b" using eq by (metis option.inject)
  qed
  with assms(1) have "distinct (map (dumps e) (map snd ps))"
    by (subst distinct_map) blast
  then show ?thesis by (simp add: comp_def)
qed

text \<open>
  C3, as the claim states it, fails in three ways. When the last of the N+1 inserts
  carries the smallest timestamp (\<open>max_length = 1\<close>, timestamp 5 and then timestamp 3),
  the element at 5 is evicted and the one at 3 stored, so \<open>get\<close> at the smallest
  timestamp returns its payload and \<open>get\<close> at the largest returns nothing. On an engine
  in numpy mode \<open>get\<close> at the largest timestamp returns nothing although the element is
  stored. And with \<open>max_length = 0\<close> the one insert leaves one element, not none.
\<close>

theorem capacity_claim_counterexample:
  "fst (get (text_engine 1 False) ''k'' 3
          (add_each (text_engine 1 False) ''k'' [(5, ''a''), (3, ''b'')] (holding ''k'' [])))
     = Inr (Some ''b'') \<and>
   fst (get (text_engine 1 False) ''k'' 5
          (add_each (text_engine 1 False) ''k'' [(5, ''a''), (3, ''b'')] (holding ''k'' [])))
     = Inr None \<and>
   db (add_each (text_engine 1 True) ''k'' [(1, ''a''), (2, ''b'')] (holding ''k'' [])) ''k''
     = [(2, ''b'')] \<and>
   fst (get (text_engine 1 True) ''k'' 2
          (add_each (text_engine 1 True) ''k'' [(1, ''a''), (2, ''b'')] (holding ''k'' [])))
     = Inr None \<and>
   length (db (add_each (text_engine 0 False) ''k'' [(1, ''a'')] (holding ''k'' [])) ''k'') = 1"
  by (simp add: client_defs engine_defs)

text \<open>
  C3 (amended). Let \<open>max_length = N\<close> with \<open>N \<ge> 1\<close>, let the series start empty, and let
  N+1 single \<open>add\<close> calls carry pairwise distinct timestamps and pairwise distinct
  payloads that the codec round-trips. Then, in whatever order the timestamps come,
  exactly N elements remain, and the element absent is the one with the smallest
  timestamp among the first N inserted: \<open>get\<close> there returns no result, and on an engine
  not in numpy mode \<open>get\<close> at every other inserted timestamp returns the payload inserted
  there. When the last call does not carry the smallest timestamp, \<open>get\<close> at the
  smallest of the N+1 timestamps returns no result and, on an engine not in numpy mode,
  \<open>get\<close> at the largest returns the payload inserted there.
\<close>

theorem capacity_after_one_more_add:
  assumes cap: "max_length e = int N" and pos: "0 < N"
    and empty: "db s name = []"
    and len: "length ps = N + 1"
    and dt: "distinct (map fst ps)"
    and dp: "distinct (map snd ps)"
    and codec: "\<forall>p \<in> set ps. loads e (dumps e (snd p)) = Some (snd p)"
  shows "length (db (add_each e name ps s) name) = N \<and>
         fst (get e name (Min (fst ` set (butlast ps))) (add_each e name ps s)) = Inr None \<and>
         (\<not> use_numpy e \<longrightarrow>
            (\<forall>p \<in> set ps. fst p \<noteq> Min (fst ` set (butlast ps)) \<longrightarrow>
               fst (get e name (fst p) (add_each e name ps s)) = Inr (Some (snd p)))) \<and>
         (fst (last ps) \<noteq> Min (fst ` set ps) \<longrightarrow>
            fst (get e name (Min (fst ` set ps)) (add_each e name ps s)) = Inr None \<and>
            (\<not> use_numpy e \<longrightarrow>
               (\<forall>p \<in> set ps. fst p = Max (fst ` set ps) \<longrightarrow>
                  fst (get e name (fst p) (add_each e name ps s)) = Inr (Some (snd p)))))"
proof -
  from len obtain qs q where ps: "ps = qs @ [q]"
    by (cases ps rule: rev_cases) auto
  have lq: "length qs = N" using len ps by simp
  have dm: "distinct (map (\<lambda>p. dumps e (snd p)) ps)"
    using dp codec by (rule codec_distinct)
  let ?z = "db (add_each e name qs s) name"
  let ?S = "add_each e name ps s"
  have inv: "sorted ?z" "distinct (map fst ?z)" "set ?z = enc e ` set qs" "length ?z = N"
    using add_each_under_capacity [of s name qs e] empty dt dm cap lq
    by (simp_all add: ps)
  from inv(4) pos obtain h rest where z: "?z = h # rest"
    by (cases ?z) auto
  have t: "fst q \<notin> fst ` set ?z"
    using dt by (force simp: ps inv(3) enc_def)
  have m: "dumps e (snd q) \<notin> snd ` set ?z"
    using dm by (force simp: ps inv(3) enc_def)
  have m': "dumps e (snd q) \<notin> snd ` set rest"
    using m by (simp add: z)
  let ?z' = "insort (enc e q) rest"
  have "filter (in_range (Fin (fst q)) (Fin (fst q))) ?z = []"
    using t by (rule absent_score)
  then have "db ?S name = zset_add (fst q) (dumps e (snd q)) (tl ?z)"
    using cap inv(4) by (simp add: ps add_each_snoc db_add)
  then have final: "db ?S name = ?z'"
    by (simp add: z zset_add_fresh [OF m'] enc_def)
  have d': "distinct (map fst ?z')"
    using inv(2) t by (intro distinct_map_insort) (simp_all add: z enc_def)
  have low: "\<forall>x \<in> set rest. fst h \<le> fst x"
    using inv(1) by (auto simp: z less_eq_prod_def)
  have first_scores: "fst ` set qs = insert (fst h) (fst ` set rest)"
  proof -
    have "fst ` set qs = fst ` set ?z"
      by (force simp: inv(3) enc_def)
    then show ?thesis by (simp add: z)
  qed
  have minq: "Min (fst ` set (butlast ps)) = fst h"
    unfolding ps butlast_snoc first_scores using low by (intro Min_eqI) auto
  have hq: "fst q \<noteq> fst h"
    using t by (auto simp: z)
  have "fst h \<notin> fst ` set rest"
    using inv(2) by (simp add: z)
  then have gone: "fst h \<notin> fst ` set ?z'"
    using hq by (auto simp: set_insort_key enc_def)
  have kept: "fst (get e name (fst p) ?S) = Inr (Some (snd p))"
    if p: "p \<in> set ps" and ne: "fst p \<noteq> fst h" and plain: "\<not> use_numpy e" for p
  proof -
    have "enc e p \<in> insert (enc e q) (set ?z)"
      using p by (auto simp: ps inv(3))
    then have "enc e p \<in> set ?z'"
      using ne by (auto simp: set_insort_key z enc_def)
    then have "(fst p, dumps e (snd p)) \<in> set ?z'" by (simp add: enc_def)
    from filter_score_single [OF d' this] codec p plain
    show ?thesis by (simp add: get_reads final)
  qed
  have c1: "length (db ?S name) = N"
    using inv(4) by (simp add: final z)
  have c2: "fst (get e name (Min (fst ` set (butlast ps))) ?S) = Inr None"
    by (simp add: get_reads final minq absent_score [OF gone])
  have c3: "\<not> use_numpy e \<longrightarrow>
            (\<forall>p \<in> set ps. fst p \<noteq> Min (fst ` set (butlast ps)) \<longrightarrow>
               fst (get e name (fst p) ?S) = Inr (Some (snd p)))"
    using kept by (simp add: minq)
  have c4: "fst (get e name (Min (fst ` set ps)) ?S) = Inr None \<and>
            (\<not> use_numpy e \<longrightarrow>
               (\<forall>p \<in> set ps. fst p = Max (fst ` set ps) \<longrightarrow>
                  fst (get e name (fst p) ?S) = Inr (Some (snd p))))"
    if late: "fst (last ps) \<noteq> Min (fst ` set ps)"
  proof -
    have "Min (fst ` set ps) = min (fst q) (fst h)"
      using minq by (simp add: ps first_scores)
    with late have lt: "fst h < fst q" and minp: "Min (fst ` set ps) = fst h"
      by (simp_all add: ps min_def split: if_splits)
    have top: "fst p \<noteq> fst h" if "p \<in> set ps" and mx: "fst p = Max (fst ` set ps)" for p
    proof -
      have "fst q \<le> Max (fst ` set ps)" by (intro Max_ge) (auto simp: ps)
      with lt mx show ?thesis by simp
    qed
    have "fst (get e name (Min (fst ` set ps)) ?S) = Inr None"
      using c2 by (simp add: minp minq)
    moreover have "\<not> use_numpy e \<longrightarrow>
               (\<forall>p \<in> set ps. fst p = Max (fst ` set ps) \<longrightarrow>
                  fst (get e name (fst p) ?S) = Inr (Some (snd p)))"
      using kept top by blast
    ultimately show ?thesis by (rule conjI)
  qed
  from c1 c2 c3 c4 show ?thesis by blast
qed

theorem capacity_after_one_more_add_witness:
  "length (db (add_each (text_engine 2 False) ''k'' [(1, ''a''), (2, ''b''), (3, ''c'')]
             (holding ''k'' [])) ''k'') = 2 \<and>
   fst (get (text_engine 2 False) ''k'' 1
          (add_each (text_engine 2 False) ''k'' [(1, ''a''), (2, ''b''), (3, ''c'')]
             (holding ''k'' []))) = Inr None \<and>
   fst (get (text_engine 2 False) ''k'' 3
          (add_each (text_engine 2 False) ''k'' [(1, ''a''), (2, ''b''), (3, ''c'')]
             (holding ''k'' []))) = Inr (Some ''c'') \<and>
   length (db (add_each (text_engine 2 False) ''k'' [(5, ''a''), (4, ''b''), (3, ''c'')]
             (holding ''k'' [])) ''k'') = 2 \<and>
   fst (get (text_engine 2 False) ''k'' 4
          (add_each (text_engine 2 False) ''k'' [(5, ''a''), (4, ''b''), (3, ''c'')]
             (holding ''k'' []))) = Inr None \<and>
   fst (get (text_engine 2 False) ''k'' 3
          (add_each (text_engine 2 False) ''k'' [(5, ''a''), (4, ''b''), (3, ''c'')]
             (holding ''k'' []))) = Inr (Some ''c'')"
proof -
  let ?e = "text_engine 2 False"
  let ?ps = "[(1, ''a''), (2, ''b''), (3, ''c'')] :: (int \<times> string) list"
  let ?qs = "[(5, ''a''), (4, ''b''), (3, ''c'')] :: (int \<times> string) list"
  have h1: "max_length ?e = int 2" by (simp add: text_engine_def)
  have h2: "0 < (2::nat)" by simp
  have h3: "db (holding ''k'' []) ''k'' = []" by (simp add: holding_def)
  have h4: "length ?ps = 2 + 1" "length ?qs = 2 + 1" by simp_all
  have h5: "distinct (map fst ?ps)" "distinct (map fst ?qs)" by simp_all
  have h6: "distinct (map snd ?ps)" "distinct (map snd ?qs)" by simp_all
  have h7: "\<forall>p \<in> set ?ps. loads ?e (dumps ?e (snd p)) = Some (snd p)"
    "\<forall>p \<in> set ?qs. loads ?e (dumps ?e (snd p)) = Some (snd p)"
    by (simp_all add: text_engine_def)
  have h8: "\<not> use_numpy ?e" by (simp add: text_engine_def)
  have mn: "Min (fst ` set ?ps) = 1" and mx: "Max (fst ` set ?ps) = 3"
    and mb: "Min (fst ` set (butlast ?qs)) = 4" by simp_all
  have h9: "fst (last ?ps) \<noteq> Min (fst ` set ?ps)" by (simp only: mn) simp
  note up = capacity_after_one_more_add [OF h1 h2 h3 h4(1) h5(1) h6(1) h7(1)]
  note down = capacity_after_one_more_add [OF h1 h2 h3 h4(2) h5(2) h6(2) h7(2)]
  have u1: "length (db (add_each ?e ''k'' ?ps (holding ''k'' [])) ''k'') = 2"
    using up by blast
  have u2: "fst (get ?e ''k'' 1 (add_each ?e ''k'' ?ps (holding ''k'' []))) = Inr None"
    using up h9 by (simp only: mn) blast
  have "\<forall>p \<in> set ?ps. fst p = Max (fst ` set ?ps) \<longrightarrow>
          fst (get ?e ''k'' (fst p) (add_each ?e ''k'' ?ps (holding ''k'' []))) = Inr (Some (snd p))"
    using up h8 h9 by blast
  then have u3: "fst (get ?e ''k'' 3 (add_each ?e ''k'' ?ps (holding ''k'' []))) = Inr (Some ''c'')"
    by (simp only: mx) simp
  have d1: "length (db (add_each ?e ''k'' ?qs (holding ''k'' [])) ''k'') = 2"
    using down by blast
  have d2: "fst (get ?e ''k'' 4 (add_each ?e ''k'' ?qs (holding ''k'' []))) = Inr None"
    using down by (simp only: mb)
  have "\<forall>p \<in> set ?qs. fst p \<noteq> Min (fst ` set (butlast ?qs)) \<longrightarrow>
          fst (get ?e ''k'' (fst p) (add_each ?e ''k'' ?qs (holding ''k'' []))) = Inr (Some (snd p))"
    using down h8 by blast
  then have d3: "fst (get ?e ''k'' 3 (add_each ?e ''k'' ?qs (holding ''k'' []))) = Inr (Some ''c'')"
    by (simp only: mb) simp
  from u1 u2 u3 d1 d2 d3 show ?thesis by (intro conjI)
qed

section \<open>Trimming and deleting\<close>

text \<open>
  C1, as the claim states it, fails: \<open>trim(name, 1)\<close> on a series of three elements
  removes the one lowest-ranked element and leaves two, not one; and \<open>trim(name, 0)\<close>
  leaves the three elements where the claim has the series deleted.
\<close>

theorem trim_leaves_rest_counterexample:
  "db (trim ''k'' 1 (holding ''k'' [(1, ''a''), (2, ''b''), (3, ''c'')])) ''k''
     = [(2, ''b''), (3, ''c'')] \<and>
   length (db (trim ''k'' 1 (holding ''k'' [(1, ''a''), (2, ''b''), (3, ''c'')])) ''k'') \<noteq> 1 \<and>
   db (trim ''k'' 0 (holding ''k'' [(1, ''a''), (2, ''b''), (3, ''c'')])) ''k''
     = [(1, ''a''), (2, ''b''), (3, ''c'')]"
  by (simp add: client_defs engine_defs)

text \<open>
  C1 (amended). On a series of current length C, \<open>trim(name, L)\<close> with C > L > 0 removes
  the L lowest-ranked (oldest) elements and leaves the C - L highest-ranked ones; with
  L \<ge> C it deletes the whole series; with L \<le> 0 it leaves a non-empty series as it is.
  It never increases the number of elements, every element it removes from a sorted
  series ranks no higher than any element it keeps, and other series are untouched.
\<close>

theorem trim_removes_lowest_ranked:
  "(0 < len \<and> len < int (length (db s name)) \<longrightarrow>
      db (trim name len s) name = drop (nat len) (db s name) \<and>
      int (length (db (trim name len s) name)) = int (length (db s name)) - len) \<and>
   (int (length (db s name)) \<le> len \<longrightarrow> db (trim name len s) name = []) \<and>
   (len \<le> 0 \<and> db s name \<noteq> [] \<longrightarrow> db (trim name len s) name = db s name) \<and>
   length (db (trim name len s) name) \<le> length (db s name) \<and>
   (sorted (db s name) \<longrightarrow>
      (\<forall>x \<in> set (db s name) - set (db (trim name len s) name).
         \<forall>y \<in> set (db (trim name len s) name). x \<le> y)) \<and>
   (\<forall>k. k \<noteq> name \<longrightarrow> db (trim name len s) k = db s k)"
proof -
  have order: "sorted z \<Longrightarrow> \<forall>x \<in> set z - set (drop n z). \<forall>y \<in> set (drop n z). x \<le> y"
    for z :: zset and n
  proof (intro ballI)
    fix x y
    assume z: "sorted z" and x: "x \<in> set z - set (drop n z)" and y: "y \<in> set (drop n z)"
    have "sorted (take n z @ drop n z)" using z by simp
    then have "\<forall>a \<in> set (take n z). \<forall>b \<in> set (drop n z). a \<le> b"
      unfolding sorted_append by blast
    moreover have "x \<in> set (take n z)"
      using x by (metis DiffD1 DiffD2 Un_iff append_take_drop_id set_append)
    ultimately show "x \<le> y" using y by blast
  qed
  have none: "int (length z) \<le> len \<Longrightarrow> \<not> 0 < len \<Longrightarrow> z = []" for z :: zset
    by (cases z) auto
  show ?thesis
    using order [of "db s name" "nat len"] none [of "db s name"]
    by (auto simp: db_trim)
qed

theorem trim_removes_lowest_ranked_witness:
  "sorted (db (holding ''k'' [(1, ''a''), (2, ''b''), (3, ''c'')]) ''k'') \<and>
   db (trim ''k'' 2 (holding ''k'' [(1, ''a''), (2, ''b''), (3, ''c'')])) ''k'' = [(3, ''c'')] \<and>
   db (trim ''k'' 3 (holding ''k'' [(1, ''a''), (2, ''b''), (3, ''c'')])) ''k'' = [] \<and>
   db (trim ''k'' 0 (holding ''k'' [(1, ''a''), (2, ''b''), (3, ''c'')])) ''k''
     = [(1, ''a''), (2, ''b''), (3, ''c'')] \<and>
   db (trim ''k'' 2 (holding ''k'' [(1, ''a''), (2, ''b''), (3, ''c'')])) ''j'' = [] \<and>
   list_all (\<lambda>y. (2, ''b'') \<le> y)
     (db (trim ''k'' 2 (holding ''k'' [(1, ''a''), (2, ''b''), (3, ''c'')])) ''k'')"
proof -
  let ?s = "holding ''k'' [(1, ''a''), (2, ''b''), (3, ''c'')]"
  have z: "db ?s ''k'' = [(1, ''a''), (2, ''b''), (3, ''c'')]" and j: "db ?s ''j'' = []"
    by (simp_all add: holding_def)
  have srt: "sorted (db ?s ''k'')"
    by (simp add: z)
  have two: "db (trim ''k'' 2 ?s) ''k'' = [(3, ''c'')]"
    using trim_removes_lowest_ranked [of 2 ?s "''k''"] by (simp add: z)
  have three: "db (trim ''k'' 3 ?s) ''k'' = []"
    using trim_removes_lowest_ranked [of 3 ?s "''k''"] by (simp add: z)
  have zero: "db (trim ''k'' 0 ?s) ''k'' = [(1, ''a''), (2, ''b''), (3, ''c'')]"
    using trim_removes_lowest_ranked [of 0 ?s "''k''"] by (simp add: z)
  have other: "db (trim ''k'' 2 ?s) ''j'' = []"
    using trim_removes_lowest_ranked [of 2 ?s "''k''"] by (simp add: j)
  have "\<forall>x \<in> set (db ?s ''k'') - set (db (trim ''k'' 2 ?s) ''k'').
          \<forall>y \<in> set (db (trim ''k'' 2 ?s) ''k''). x \<le> y"
    using trim_removes_lowest_ranked [of 2 ?s "''k''"] srt by blast
  then have ord: "list_all (\<lambda>y. (2, ''b'') \<le> y) (db (trim ''k'' 2 ?s) ''k'')"
    by (simp add: z two)
  from srt two three zero other ord show ?thesis by (intro conjI)
qed

lemma delete_nonzero_bound:
  assumes "truthy start_timestamp \<or> truthy end_timestamp"
  shows "db (snd (delete name start_timestamp end_timestamp s)) name =
           filter (\<lambda>x. \<not> in_range (or_else start_timestamp NegInf)
                          (or_else end_timestamp PosInf) x) (db s name) \<and>
         fst (delete name start_timestamp end_timestamp s) =
           length (filter (in_range (or_else start_timestamp NegInf)
                             (or_else end_timestamp PosInf)) (db s name))"
proof -
  have "length (filter Q z) + length (filter (\<lambda>x. \<not> Q x) z) = length z"
    for Q :: "int \<times> bytes \<Rightarrow> bool" and z
    by (rule sum_length_filter_compl)
  then have "length z - length (filter (\<lambda>x. \<not> Q x) z) = length (filter Q z)"
    for Q :: "int \<times> bytes \<Rightarrow> bool" and z
    by (metis add_diff_cancel_right')
  then show ?thesis
    using assms
    by (simp add: delete_def zremrangebyscore_def zset_remrangebyscore_def Let_def)
qed

text \<open>
  C4 holds of the code only when one of the two bounds is a non-zero number
  (\<open>delete_nonzero_bound\<close>). With both bounds zero the test
  \<open>if start_timestamp or end_timestamp\<close> is false, and \<open>delete(name, 0, 0)\<close> takes the
  branch meant for a call without a range: the whole key is deleted, the elements at
  scores -1 and 1 included, and the reply is the number of keys deleted.
\<close>

theorem delete_zero_bounds_drops_series:
  "db (snd (delete ''k'' (Some 0) (Some 0)
              (holding ''k'' [(- 1, ''a''), (0, ''b''), (1, ''c'')]))) ''k'' = [] \<and>
   fst (delete ''k'' (Some 0) (Some 0)
          (holding ''k'' [(- 1, ''a''), (0, ''b''), (1, ''c'')])) = 1 \<and>
   log (snd (delete ''k'' (Some 0) (Some 0)
               (holding ''k'' [(- 1, ''a''), (0, ''b''), (1, ''c'')]))) = [DEL ''k''] \<and>
   db (snd (delete ''k'' (Some 0) None
              (holding ''k'' [(- 1, ''a''), (0, ''b''), (1, ''c'')]))) ''k'' = []"
  by (simp add: client_defs engine_defs)

section \<open>Bulk insertion\<close>

lemma zset_add_all_frame:
  "x \<in> set z \<Longrightarrow>
   x \<in> set (zset_add_all ps z) \<or>
   (\<exists>sc. (sc, snd x) \<in> set (zset_add_all ps z) \<and> (sc, snd x) \<in> set ps)"
proof (induction ps arbitrary: z x)
  case Nil
  then show ?case by simp
next
  case (Cons p ps)
  obtain sc m where p: "p = (sc, m)" by (cases p)
  show ?case
  proof (cases "snd x = m")
    case True
    have "(sc, m) \<in> set (zset_add sc m z)" by (simp add: set_zset_add)
    from Cons.IH [OF this] show ?thesis using True p by auto
  next
    case False
    then have "x \<in> set (zset_add sc m z)" using Cons.prems by (simp add: set_zset_add)
    from Cons.IH [OF this] show ?thesis using p by auto
  qed
qed

lemma zset_add_all_distinct:
  "distinct (map snd z) \<Longrightarrow> distinct (map snd (zset_add_all ps z))"
  by (induction ps arbitrary: z) (auto simp: distinct_zset_add)

lemma zset_add_all_length:
  "distinct (map snd z) \<Longrightarrow> length z \<le> length (zset_add_all ps z)"
proof (induction ps arbitrary: z)
  case Nil
  then show ?case by simp
next
  case (Cons p ps)
  obtain sc m where p: "p = (sc, m)" by (cases p)
  have "length z \<le> length (zset_add sc m z)"
    using Cons.prems by (rule length_zset_add_mono)
  also have "\<dots> \<le> length (zset_add_all ps (zset_add sc m z))"
    using Cons.prems by (intro Cons.IH distinct_zset_add)
  finally show ?case by (simp add: p)
qed

lemma set_chunks_fuel: "c \<in> set (chunks_fuel k n xs) \<Longrightarrow> set c \<subseteq> set xs"
proof (induction k arbitrary: xs)
  case 0
  then show ?case by simp
next
  case (Suc k)
  then show ?case
    by (auto split: if_splits dest: in_set_takeD in_set_dropD)
qed

lemma db_add_chunk:
  "db (add_chunk e name item s) =
     (db s)(name := zset_add_all (map (enc e) item) (db s name))"
proof -
  have "(\<lambda>(timestamp, data). (timestamp, dumps e data)) = enc e"
    by (simp add: enc_def fun_eq_iff)
  then show ?thesis
    by (simp add: add_chunk_def transaction_pipe_def zadd_def Let_def)
qed

lemma fold_add_chunk:
  assumes "distinct (map snd (db s name))"
    and "\<forall>c \<in> set cs. set c \<subseteq> set pairs"
  shows "distinct (map snd (db (fold (add_chunk e name) cs s) name)) \<and>
         length (db s name) \<le> length (db (fold (add_chunk e name) cs s) name) \<and>
         (\<forall>k. k \<noteq> name \<longrightarrow> db (fold (add_chunk e name) cs s) k = db s k) \<and>
         (\<forall>x \<in> set (db s name).
            x \<in> set (db (fold (add_chunk e name) cs s) name) \<or>
            (\<exists>p \<in> set pairs. dumps e (snd p) = snd x \<and>
               (fst p, snd x) \<in> set (db (fold (add_chunk e name) cs s) name)))"
  using assms
proof (induction cs arbitrary: s)
  case Nil
  then show ?case by simp
next
  case (Cons c cs)
  let ?s1 = "add_chunk e name c s"
  let ?s2 = "fold (add_chunk e name) cs ?s1"
  have z1: "db ?s1 name = zset_add_all (map (enc e) c) (db s name)"
    by (simp add: db_add_chunk)
  have d1: "distinct (map snd (db ?s1 name))"
    using Cons.prems(1) by (simp add: z1 zset_add_all_distinct)
  have sub: "\<forall>c \<in> set cs. set c \<subseteq> set pairs" and c: "set c \<subseteq> set pairs"
    using Cons.prems(2) by auto
  note ih = Cons.IH [OF d1 sub]
  have l1: "length (db s name) \<le> length (db ?s1 name)"
    using Cons.prems(1) by (simp add: z1 zset_add_all_length)
  have frame: "x \<in> set (db ?s2 name) \<or>
      (\<exists>p \<in> set pairs. dumps e (snd p) = snd x \<and> (fst p, snd x) \<in> set (db ?s2 name))"
    if x: "x \<in> set (db s name)" for x
  proof -
    from zset_add_all_frame [OF x, of "map (enc e) c"]
    consider (kept) "x \<in> set (db ?s1 name)"
      | (moved) sc where "(sc, snd x) \<in> set (db ?s1 name)" "(sc, snd x) \<in> set (map (enc e) c)"
      unfolding z1 by blast
    then show ?thesis
    proof cases
      case kept
      with ih show ?thesis by blast
    next
      case moved
      from moved(2) obtain p where p: "p \<in> set c" "fst p = sc" "dumps e (snd p) = snd x"
        by (auto simp: enc_def)
      from ih moved(1) have
        "(sc, snd x) \<in> set (db ?s2 name) \<or>
         (\<exists>q \<in> set pairs. dumps e (snd q) = snd x \<and> (fst q, snd x) \<in> set (db ?s2 name))"
        by fastforce
      with p c show ?thesis by blast
    qed
  qed
  have others: "\<forall>k. k \<noteq> name \<longrightarrow> db ?s2 k = db s k"
    using ih by (simp add: db_add_chunk)
  show ?case
    using ih l1 frame others by simp
qed

text \<open>
  C9, as the claim states it, fails: a batch whose payload serializes to a stored member
  moves that member to the batch's timestamp. The element \<open>(1, a)\<close> is stored before the
  bulk insert of \<open>(2, c)\<close> and \<open>(3, a)\<close> and is not stored after it, and \<open>get\<close> at
  timestamp 1 no longer returns a result.
\<close>

theorem add_many_moves_member_counterexample:
  "(1, ''a'') \<in> set (db (holding ''k'' [(1, ''a''), (5, ''b'')]) ''k'') \<and>
   (1, ''a'') \<notin> set (db (snd (add_many (text_engine 10 False) ''k'' [(2, ''c''), (3, ''a'')] 2000
                                (holding ''k'' [(1, ''a''), (5, ''b'')]))) ''k'') \<and>
   fst (get (text_engine 10 False) ''k'' 1 (holding ''k'' [(1, ''a''), (5, ''b'')]))
     = Inr (Some ''a'') \<and>
   fst (get (text_engine 10 False) ''k'' 1
          (snd (add_many (text_engine 10 False) ''k'' [(2, ''c''), (3, ''a'')] 2000
                  (holding ''k'' [(1, ''a''), (5, ''b'')]))))
     = Inr None"
  by (simp add: client_defs engine_defs)

text \<open>
  C9 (amended). \<open>add_many\<close> applies no capacity eviction, whatever \<open>max_length\<close> is. On a
  series with unique members, every element stored before the call is still stored
  after it unless a pair of the batch has a payload that serializes to its member, and
  then the member is still stored, at the timestamp of such a pair; the length never
  decreases; other series are untouched. And a series may end up above \<open>max_length\<close>:
  under \<open>max_length = 1\<close> a series of one element holds three after a bulk insert of two.
\<close>

theorem add_many_never_evicts:
  assumes "distinct (map snd (db s name))"
  shows "(\<forall>x \<in> set (db s name).
            x \<in> set (db (snd (add_many e name timestamp_pairs chunks_size s)) name) \<or>
            (\<exists>pairs. add_many_validate e name timestamp_pairs = Inr pairs \<and>
               (\<exists>p \<in> set pairs. dumps e (snd p) = snd x \<and>
                  (fst p, snd x) \<in>
                    set (db (snd (add_many e name timestamp_pairs chunks_size s)) name)))) \<and>
         length (db s name) \<le>
           length (db (snd (add_many e name timestamp_pairs chunks_size s)) name) \<and>
         (\<forall>k. k \<noteq> name \<longrightarrow>
            db (snd (add_many e name timestamp_pairs chunks_size s)) k = db s k) \<and>
         int (length (db (snd (add_many (text_engine 1 False) ''k'' [(2, ''b''), (3, ''c'')] 2000
                         (holding ''k'' [(1, ''a'')]))) ''k''))
           > max_length (text_engine 1 False)"
proof -
  have over: "int (length (db (snd (add_many (text_engine 1 False) ''k'' [(2, ''b''), (3, ''c'')] 2000
                         (holding ''k'' [(1, ''a'')]))) ''k''))
           > max_length (text_engine 1 False)"
    by (simp add: client_defs engine_defs)
  show ?thesis
  proof (cases "validate_key name")
    case False
    then show ?thesis using over by (simp add: add_many_def)
  next
    case True
    show ?thesis
    proof (cases "add_many_validate e name timestamp_pairs")
      case (Inl err)
      then show ?thesis using True over by (simp add: add_many_def)
    next
      case (Inr pairs)
      have "\<forall>c \<in> set (chunks pairs chunks_size). set c \<subseteq> set pairs"
        by (auto simp: chunks_def dest: set_chunks_fuel)
      from fold_add_chunk [OF assms this, of e] show ?thesis
        using True Inr over by (simp add: add_many_def)
    qed
  qed
qed

theorem add_many_never_evicts_witness:
  "distinct (map snd (db (holding ''k'' [(1, ''a''), (5, ''b'')]) ''k'')) \<and>
   db (snd (add_many (text_engine 1 False) ''k'' [(2, ''c''), (3, ''a'')] 1
              (holding ''k'' [(1, ''a''), (5, ''b'')]))) ''k''
     = [(2, ''c''), (3, ''a''), (5, ''b'')] \<and>
   length (db (holding ''k'' [(1, ''a''), (5, ''b'')]) ''k'') \<le>
     length (db (snd (add_many (text_engine 1 False) ''k'' [(2, ''c''), (3, ''a'')] 1
                       (holding ''k'' [(1, ''a''), (5, ''b'')]))) ''k'')"
proof -
  have h: "distinct (map snd (db (holding ''k'' [(1, ''a''), (5, ''b'')]) ''k''))"
    by (simp add: holding_def)
  have v: "db (snd (add_many (text_engine 1 False) ''k'' [(2, ''c''), (3, ''a'')] 1
              (holding ''k'' [(1, ''a''), (5, ''b'')]))) ''k''
     = [(2, ''c''), (3, ''a''), (5, ''b'')]"
    by (simp add: client_defs engine_defs)
  from add_many_never_evicts [OF h, of "text_engine 1 False" "[(2, ''c''), (3, ''a'')]" 1] h v
  show ?thesis by (intro conjI) simp_all
qed

section \<open>Reading a series back\<close>

lemma slice_loop_by_next:
  assumes "\<not> use_numpy e"
  shows "length (fst (fst (slice_loop e by_next asc name lo hi chunks_size (0 # rest) index s))) \<le> 1 \<and>
         snd (fst (slice_loop e by_next asc name lo hi chunks_size (0 # rest) index s)) \<noteq> None"
  using assms
  by (simp add: start_of_def by_next_def split: prod.splits option.splits)

lemma get_slice_by_next_paged:
  assumes "\<not> use_numpy e"
    and "0 < chunks_size"
    and "chunks_size < int (fst (count name (or_else start_timestamp NegInf)
                                   (or_else end_timestamp PosInf) s))"
  shows "length (fst (fst (get_slice e by_next name start_timestamp end_timestamp limit asc
                             chunks_size s))) \<le> 1 \<and>
         snd (fst (get_slice e by_next name start_timestamp end_timestamp limit asc
                     chunks_size s)) \<noteq> None"
proof -
  obtain total s1 where c: "count name (or_else start_timestamp NegInf)
                              (or_else end_timestamp PosInf) s = (total, s1)"
    by (cases "count name (or_else start_timestamp NegInf) (or_else end_timestamp PosInf) s")
  have "chunks_size \<le> int total"
    using assms(3) by (simp add: c)
  then have "0 < int total div chunks_size"
    using assms(2) pos_imp_zdiv_pos_iff [of chunks_size "int total"] by blast
  then have "0 < nat (int total div chunks_size)" by simp
  then have "[0 ..< nat (int total div chunks_size)] = 0 # [1 ..< nat (int total div chunks_size)]"
    by (simp add: upt_conv_Cons)
  then show ?thesis
    using assms slice_loop_by_next [OF assms(1)]
    by (simp add: get_slice_def c Let_def)
qed

text \<open>
  C2 does not hold of the code. A series of three elements read in pages of two, by a
  consumer that iterates the generator: the count exceeds the page size, so the paging
  branch runs \<open>int(3 / 2) = 1\<close> round. The first page holds the two oldest elements. When
  the consumer asks for more, the \<open>yield\<close> expression has the value \<open>None\<close>, so
  \<open>yield_data[-1]\<close> raises a TypeError before any rank is looked up; the third element
  is never produced. A consumer that sends each page back gets the same single page and
  then the end of the generator: the one round is over, and the third element is dropped
  without an error.
\<close>

theorem get_slice_stops_after_first_page:
  "fst (get_slice (text_engine 10 False) by_next ''k'' None None None True 2
          (holding ''k'' [(1, ''a''), (2, ''b''), (3, ''c'')]))
     = ([[(1, ''a''), (2, ''b'')]], Some TypeError) \<and>
   fst (get_slice (text_engine 10 False) by_send ''k'' None None None True 2
          (holding ''k'' [(1, ''a''), (2, ''b''), (3, ''c'')]))
     = ([[(1, ''a''), (2, ''b'')]], None)"
  by (simp add: client_defs engine_defs)

text \<open>
  C7 does not hold of the code. The scan of \<open>iter\<close> runs only under
  \<open>if self.use_numpy\<close>, and inside the loop the same test takes the \<open>pass\<close> branch: in
  either mode, for every series, the generator yields nothing.
\<close>

theorem iter_yields_nothing:
  "fst (iter e name cnt s) = ([], None) \<and>
   fst (iter (text_engine 10 False) ''k'' None (holding ''k'' [(1, ''a''), (2, ''b'')]))
     = ([], None)"
proof -
  have "use_numpy e \<Longrightarrow> iter_loop e items = ([], None)" for items and e :: "'a engine"
    by (induction items) simp_all
  then have "fst (iter e name cnt s) = ([], None)" for e :: "'a engine" and name cnt s
    by (simp add: iter_def split: prod.splits)
  moreover have
    "fst (iter (text_engine 10 False) ''k'' None (holding ''k'' [(1, ''a''), (2, ''b'')]))
       = ([], None)"
    by (simp add: iter_def text_engine_def)
  ultimately show ?thesis by simp
qed

section \<open>Name validation\<close>

text \<open>
  C8 does not hold of \<open>add\<close>. \<open>add_many\<close> starts with \<open>validate_key\<close> and raises on the
  empty name with the store untouched and no command issued; \<open>add\<close> has no such call:
  on the empty name it issues three commands and stores the element under that name.
\<close>

theorem add_skips_validation:
  "\<not> validate_key [] \<and>
   add_many (text_engine 10 False) [] [(1, ''x'')] 2000 (holding ''k'' [])
     = (Some ValidationError, holding ''k'' []) \<and>
   log (snd (add (text_engine 10 False) [] 1 ''x'' (holding ''k'' [])))
     = [ZCOUNT [], ZCARD [], ZADD []] \<and>
   db (snd (add (text_engine 10 False) [] 1 ''x'' (holding ''k'' []))) [] = [(1, ''x'')] \<and>
   \<not> validate_key ''k:HASH'' \<and>
   db (snd (add (text_engine 10 False) ''k:HASH'' 1 ''x'' (holding ''k'' []))) ''k:HASH''
     = [(1, ''x'')]"
  by (simp add: client_defs engine_defs)

end
